theory Spec2Isabelle
  imports Main "HOL-Library.Sublist"
begin

section \<open>Python string primitives used by both scripts\<close>

text \<open>
  A Python \<open>str\<close> is modelled as a \<open>string\<close>; one \<open>char\<close> stands for one code point
  below 256. \<open>str.isspace\<close> on that range holds for the code points 9 to 13, 28 to 32,
  133 and 160.
\<close>

definition isspace :: "char \<Rightarrow> bool" where
  "isspace c =
     (let n = (of_char c :: nat)
      in (9 \<le> n \<and> n \<le> 13) \<or> (28 \<le> n \<and> n \<le> 32) \<or> n = 133 \<or> n = 160)"

text \<open>\<open>s.strip()\<close>: leading and trailing whitespace removed.\<close>

definition strip :: "string \<Rightarrow> string" where
  "strip s = rev (dropWhile isspace (rev (dropWhile isspace s)))"

text \<open>\<open>s.startswith(p)\<close>.\<close>

definition startswith :: "string \<Rightarrow> string \<Rightarrow> bool" where
  "startswith s p = prefix p s"

text \<open>\<open>sub in s\<close> for strings: \<open>sub\<close> occurs as a contiguous block of \<open>s\<close>.\<close>

definition str_in :: "string \<Rightarrow> string \<Rightarrow> bool" where
  "str_in sub s = sublist sub s"


section \<open>The analysis runner: \<open>scripts/run-manticore.py\<close>\<close>

subsection \<open>Reading \<open>remappings.txt\<close>\<close>

text \<open>
  The file is opened in text mode with the default \<open>newline=None\<close>: the line
  endings \<open>\r\n\<close> and \<open>\r\<close> of the decoded text are translated to \<open>\n\<close> before the
  lines are cut.
\<close>

fun universal_newlines :: "string \<Rightarrow> string" where
  "universal_newlines [] = []"
| "universal_newlines [c] = [if c = CHR 0x0D then CHR ''\<newline>'' else c]"
| "universal_newlines (c # d # ds) =
     (if c = CHR 0x0D \<and> d = CHR ''\<newline>'' then CHR ''\<newline>'' # universal_newlines ds
      else if c = CHR 0x0D then CHR ''\<newline>'' # universal_newlines (d # ds)
      else c # universal_newlines (d # ds))"

text \<open>
  \<open>for line in f\<close>: the lines of the translated text, each with its terminating
  \<open>\n\<close>; a last line without terminator is yielded when it is not empty.
\<close>

fun readlines :: "string \<Rightarrow> string list" where
  "readlines [] = []"
| "readlines (c # cs) =
     (if c = CHR ''\<newline>'' then [c] # readlines cs
      else (case readlines cs of
              [] \<Rightarrow> [[c]]
            | l # ls \<Rightarrow> (c # l) # ls))"

definition file_lines :: "string \<Rightarrow> string list" where
  "file_lines text = readlines (universal_newlines text)"

text \<open>
  The loop of lines 42 to 48; \<open>remappings\<close> is the list built so far and
  \<open>remappings.append(line)\<close> adds at its end.
\<close>

fun remappings_loop :: "string list \<Rightarrow> string list \<Rightarrow> string list" where
  "remappings_loop remappings [] = remappings"
| "remappings_loop remappings (line # rest) =
     (let line = strip line
      in if line \<noteq> [] \<and> \<not> startswith line ''#''
         then remappings_loop (remappings @ [line]) rest
         else remappings_loop remappings rest)"

definition read_remappings :: "string \<Rightarrow> string list" where
  "read_remappings text = remappings_loop [] (file_lines text)"

subsection \<open>Building the command\<close>

record args =
  contract_path :: string
  contract :: string
  timeout :: int

text \<open>The loop of lines 57 and 58: \<open>cmd.extend(['--solc-remaps', remap])\<close>.\<close>

fun extend_remaps :: "string list \<Rightarrow> string list \<Rightarrow> string list" where
  "extend_remaps cmd [] = cmd"
| "extend_remaps cmd (remap # rest) = extend_remaps (cmd @ [''--solc-remaps'', remap]) rest"

definition build_cmd :: "args \<Rightarrow> string list \<Rightarrow> string list" where
  "build_cmd a remappings =
     (let cmd = [''manticore'', contract_path a];
          cmd = cmd @ [''--contract'', contract a];
          cmd = extend_remaps cmd remappings;
          cmd = cmd @ [''-v'']
      in cmd)"

subsection \<open>The environment of a run\<close>

text \<open>What \<open>subprocess.run\<close> does with the command: it returns a completed process
  with its return code, or raises.\<close>

datatype run_outcome =
    Completed int
  | TimeoutExpired
  | FileNotFoundError
  | OtherException

datatype entry_kind = Directory | RegularFile

text \<open>
  \<open>remappings_txt\<close> is \<open>None\<close> when \<open>remappings.txt\<close> does not exist and the
  decoded text of the file otherwise; \<open>root_entries\<close> lists the entries of the project
  root at the time of the scan for results, in the order the directory scan yields them.
\<close>

record env =
  remappings_txt :: "string option"
  node_modules_exists :: bool
  subprocess_run :: "string list \<Rightarrow> int \<Rightarrow> run_outcome"
  root_entries :: "(string \<times> entry_kind) list"

datatype stream = Stdout | Stderr

text \<open>One constructor for each \<open>print\<close> of \<open>main\<close>, with the values it interpolates.\<close>

datatype message =
    RemappingsNotFound          \<comment> \<open>line 31, \<open>Error: remappings.txt not found at ...\<close>\<close>
  | NodeModulesNotFound         \<comment> \<open>line 37, \<open>Error: node_modules not found at ...\<close>\<close>
  | RunNpmCiFirst               \<comment> \<open>line 38\<close>
  | UsingRemappings "string list"   \<comment> \<open>line 50\<close>
  | RunningCommand "string list"    \<comment> \<open>line 63\<close>
  | WorkingDirectory            \<comment> \<open>line 64\<close>
  | StartingAnalysis int        \<comment> \<open>line 65\<close>
  | MayTakeSeveralMinutes       \<comment> \<open>line 66\<close>
  | CompletedSuccessfully       \<comment> \<open>line 79, the check mark\<close>
  | CompletedWithWarnings int   \<comment> \<open>line 81, the warning sign, with the exit code\<close>
  | ResultsSavedIn              \<comment> \<open>line 86\<close>
  | ResultEntry string          \<comment> \<open>lines 88 and 104, the relative path after \<open>  - \<close>\<close>
  | NoMcoreDirsFound            \<comment> \<open>line 90, the warning sign\<close>
  | TimedOutAfter int           \<comment> \<open>line 95, the warning sign\<close>
  | PartialResultsMayBeAvailable    \<comment> \<open>line 96\<close>
  | PartialResultsFoundIn       \<comment> \<open>line 102\<close>
  | ManticoreNotFound           \<comment> \<open>line 109, the cross, \<open>Error: manticore command not found\<close>\<close>
  | InstallHint                 \<comment> \<open>line 110\<close>
  | UnexpectedError             \<comment> \<open>line 114, the cross\<close>
  | Traceback                   \<comment> \<open>line 116\<close>

text \<open>
  What a run leaves behind: the prints in order, each with its stream, the commands
  handed to \<open>subprocess.run\<close> with their timeouts, and the argument of \<open>sys.exit\<close>.
\<close>

record result =
  events :: "(stream \<times> message) list"
  spawned :: "(string list \<times> int) list"
  exit_code :: int

text \<open>
  \<open>project_root.glob("mcore_*")\<close>: the entries of the project root whose name starts
  with \<open>mcore_\<close>, of whatever kind; \<open>relative_to(project_root)\<close> gives the name back.
\<close>

definition glob_mcore :: "(string \<times> entry_kind) list \<Rightarrow> string list" where
  "glob_mcore entries = filter (prefix ''mcore_'') (map fst entries)"

definition out :: "message list \<Rightarrow> (stream \<times> message) list" where
  "out ms = map (Pair Stdout) ms"

definition err :: "message list \<Rightarrow> (stream \<times> message) list" where
  "err ms = map (Pair Stderr) ms"

text \<open>
  \<open>main\<close> after \<open>parse_args\<close>. The prints and the directory scan are taken not to
  raise; \<open>sys.exit\<close> is not caught by \<open>except Exception\<close>, so its argument is the
  exit code of the run.
\<close>

definition main :: "args \<Rightarrow> env \<Rightarrow> result" where
  "main a e =
     (case remappings_txt e of
        None \<Rightarrow> \<lparr>events = err [RemappingsNotFound], spawned = [], exit_code = 1\<rparr>
      | Some text \<Rightarrow>
          if \<not> node_modules_exists e
          then \<lparr>events = err [NodeModulesNotFound, RunNpmCiFirst], spawned = [], exit_code = 1\<rparr>
          else
            let remappings = read_remappings text;
                cmd = build_cmd a remappings;
                before = out [UsingRemappings remappings, RunningCommand cmd, WorkingDirectory,
                              StartingAnalysis (timeout a), MayTakeSeveralMinutes];
                mcore_dirs = glob_mcore (root_entries e)
            in (case subprocess_run e cmd (timeout a) of
                  Completed returncode \<Rightarrow>
                    \<lparr>events = before
                       @ out [if returncode = 0 then CompletedSuccessfully
                              else CompletedWithWarnings returncode]
                       @ (if mcore_dirs \<noteq> []
                          then out (ResultsSavedIn # map ResultEntry mcore_dirs)
                          else out [NoMcoreDirsFound]),
                     spawned = [(cmd, timeout a)],
                     exit_code = returncode\<rparr>
                | TimeoutExpired \<Rightarrow>
                    \<lparr>events = before
                       @ out [TimedOutAfter (timeout a), PartialResultsMayBeAvailable]
                       @ (if mcore_dirs \<noteq> []
                          then out (PartialResultsFoundIn # map ResultEntry mcore_dirs)
                          else []),
                     spawned = [(cmd, timeout a)],
                     exit_code = 124\<rparr>
                | FileNotFoundError \<Rightarrow>
                    \<lparr>events = before @ err [ManticoreNotFound, InstallHint],
                     spawned = [(cmd, timeout a)],
                     exit_code = 1\<rparr>
                | OtherException \<Rightarrow>
                    \<lparr>events = before @ err [UnexpectedError, Traceback],
                     spawned = [(cmd, timeout a)],
                     exit_code = 1\<rparr>))"

text \<open>The prints that reached the error stream.\<close>

definition stderr_of :: "result \<Rightarrow> message list" where
  "stderr_of r = map snd (filter (\<lambda>ev. fst ev = Stderr) (events r))"

definition stdout_of :: "result \<Rightarrow> message list" where
  "stdout_of r = map snd (filter (\<lambda>ev. fst ev = Stdout) (events r))"



section \<open>The dependency patcher: \<open>scripts/patch-wasm-types.py\<close>\<close>

subsection \<open>More string primitives\<close>

text \<open>
  \<open>s.replace(old, new)\<close>: the occurrences of \<open>old\<close> are found from left to right
  without overlap, and each is replaced. For an empty \<open>old\<close>, Python puts \<open>new\<close> before
  every character and at the end.
\<close>

function replace :: "string \<Rightarrow> string \<Rightarrow> string \<Rightarrow> string" where
  "replace old new s =
     (if old = [] then new @ concat (map (\<lambda>c. c # new) s)
      else if s = [] then []
      else if prefix old s then new @ replace old new (drop (length old) s)
      else hd s # replace old new (tl s))"
  by pat_completeness auto
termination
  by (relation "measure (\<lambda>(old, new, s). length s)") auto

declare replace.simps [simp del]

text \<open>
  \<open>s.split(sep)\<close> for a non-empty separator: the pieces between the occurrences of
  \<open>sep\<close>, found from left to right without overlap. Python raises \<open>ValueError\<close> for an
  empty separator; the only separator of the source is \<open>'\n'\<close>, and the function is
  used with non-empty separators only.
\<close>

function str_split :: "string \<Rightarrow> string \<Rightarrow> string list" where
  "str_split sep s =
     (if sep = [] \<or> s = [] then [s]
      else if prefix sep s then [] # str_split sep (drop (length sep) s)
      else (case str_split sep (tl s) of
              [] \<Rightarrow> [[hd s]]
            | piece # pieces \<Rightarrow> (hd s # piece) # pieces))"
  by pat_completeness auto
termination
  by (relation "measure (\<lambda>(sep, s). length s)") auto

declare str_split.simps [simp del]

text \<open>\<open>sep.join(pieces)\<close>.\<close>

fun str_join :: "string \<Rightarrow> string list \<Rightarrow> string" where
  "str_join sep [] = []"
| "str_join sep [x] = x"
| "str_join sep (x # y # zs) = x @ sep @ str_join sep (y # zs)"

text \<open>\<open>xs.insert(i, x)\<close> for \<open>i \<ge> 0\<close>; an index beyond the end appends.\<close>

definition list_insert :: "nat \<Rightarrow> 'a \<Rightarrow> 'a list \<Rightarrow> 'a list" where
  "list_insert i x xs = take i xs @ [x] @ drop i xs"

text \<open>The number of positions of \<open>s\<close> at which \<open>p\<close> occurs.\<close>

fun occurrences :: "string \<Rightarrow> string \<Rightarrow> nat" where
  "occurrences p [] = (if p = [] then 1 else 0)"
| "occurrences p (c # cs) = (if prefix p (c # cs) then 1 else 0) + occurrences p cs"

subsection \<open>\<open>patch_file\<close>\<close>

text \<open>Line 35, the test for a file that is patched already.\<close>

definition already_patched :: "string \<Rightarrow> bool" where
  "already_patched content =
     (str_in ''collections.abc'' content \<and> str_in ''from collections.abc import'' content)"

text \<open>
  Lines 49 to 53: the index of the first line that, stripped, starts with none of
  \<open>#\<close>, three double quotes and three single quotes; 0 when there is no such line.
  \<open>i\<close> is the index of the head of the remaining lines.
\<close>

fun find_insert_pos :: "nat \<Rightarrow> string list \<Rightarrow> nat" where
  "find_insert_pos i [] = 0"
| "find_insert_pos i (line # rest) =
     (if \<not> startswith (strip line) ''#''
         \<and> \<not> startswith (strip line) [CHR 0x22, CHR 0x22, CHR 0x22]
         \<and> \<not> startswith (strip line) [CHR 0x27, CHR 0x27, CHR 0x27]
      then i
      else find_insert_pos (Suc i) rest)"

text \<open>Lines 43 to 55: add the import when it is not present.\<close>

definition add_import :: "string \<Rightarrow> string" where
  "add_import content =
     (if \<not> str_in ''import collections.abc'' content
      then
        if str_in ''import collections'' content
        then replace ''import collections\<newline>''
               ''import collections\<newline>import collections.abc\<newline>'' content
        else
          let lines = str_split ''\<newline>'' content;
              insert_pos = find_insert_pos 0 lines;
              lines = list_insert insert_pos ''import collections.abc'' lines
          in str_join ''\<newline>'' lines
      else content)"

text \<open>Lines 40 to 58: the text \<open>patch_file\<close> computes from a file that is not patched yet.\<close>

definition patched_text :: "string \<Rightarrow> string" where
  "patched_text content =
     replace ''collections.Callable'' ''collections.abc.Callable'' (add_import content)"

datatype patch_message =
    Patching              \<comment> \<open>line 29\<close>
  | AlreadyPatched        \<comment> \<open>line 36, \<open>File already patched.\<close>\<close>
  | PatchedSuccessfully   \<comment> \<open>line 63, \<open>File patched successfully.\<close>\<close>
  | NoChangesNeeded       \<comment> \<open>line 66, \<open>No changes needed.\<close>\<close>

text \<open>
  A call of \<open>patch_file\<close> on a file whose text is \<open>content\<close>: what it prints, the text
  it writes to the file (\<open>None\<close> when the file is not opened for writing) and the value
  it returns.
\<close>

record patch_result =
  printed :: "patch_message list"
  written :: "string option"
  returned :: bool

definition patch_file :: "string \<Rightarrow> patch_result" where
  "patch_file content =
     (if already_patched content
      then \<lparr>printed = [Patching, AlreadyPatched], written = None, returned = True\<rparr>
      else
        let original_content = content;
            content = patched_text content
        in if content \<noteq> original_content
           then \<lparr>printed = [Patching, PatchedSuccessfully], written = Some content,
                 returned = True\<rparr>
           else \<lparr>printed = [Patching, NoChangesNeeded], written = None, returned = True\<rparr>)"

text \<open>The text of the file after a call that found \<open>content\<close> in it.\<close>

definition file_after :: "string \<Rightarrow> patch_result \<Rightarrow> string" where
  "file_after content r = (case written r of None \<Rightarrow> content | Some new_content \<Rightarrow> new_content)"



section \<open>How two patterns can overlap\<close>

text \<open>
  The effect of \<open>replace old new\<close> on the occurrences of a pattern \<open>p\<close> depends on how
  \<open>p\<close> can overlap \<open>old\<close> and \<open>new\<close>. The conditions below are decided by running
  through the ends and the starts of the strings involved.
\<close>

text \<open>No occurrence of \<open>p\<close> begins inside \<open>x\<close>, whatever follows \<open>x\<close>.\<close>

definition no_start_in :: "string \<Rightarrow> string \<Rightarrow> bool" where
  "no_start_in p x = (\<forall>t \<in> set (suffixes x). t \<noteq> [] \<longrightarrow> \<not> prefix p t \<and> \<not> prefix t p)"

text \<open>No occurrence of \<open>p\<close> begins inside \<open>x\<close> and ends beyond it.\<close>

definition no_run_out :: "string \<Rightarrow> string \<Rightarrow> bool" where
  "no_run_out p x = (\<forall>t \<in> set (suffixes x). t \<noteq> [] \<longrightarrow> \<not> strict_prefix t p)"

text \<open>An end of \<open>p\<close> that can run into \<open>new\<close> runs into \<open>old\<close> as well.\<close>

definition heads_agree :: "string \<Rightarrow> string \<Rightarrow> string \<Rightarrow> bool" where
  "heads_agree p old new =
     (\<forall>q \<in> set (suffixes p). q \<noteq> [] \<longrightarrow> prefix q new \<or> prefix new q \<longrightarrow> prefix q old)"

text \<open>A start of \<open>old\<close> that ends \<open>p\<close> is a start of \<open>new\<close> as well.\<close>

definition tails_agree :: "string \<Rightarrow> string \<Rightarrow> string \<Rightarrow> bool" where
  "tails_agree p old new =
     (\<forall>q \<in> set (prefixes old). q \<noteq> [] \<longrightarrow> suffix q p \<longrightarrow> prefix q new)"

text \<open>\<open>p\<close> does not overlap itself.\<close>

definition border_free :: "string \<Rightarrow> bool" where
  "border_free p = (\<forall>t \<in> set (suffixes p). t \<noteq> [] \<longrightarrow> t \<noteq> p \<longrightarrow> \<not> prefix t p)"

text \<open>No occurrence of \<open>p\<close> that begins before \<open>x\<close> ends inside \<open>x\<close> or beyond it.\<close>

definition no_run_in :: "string \<Rightarrow> string \<Rightarrow> bool" where
  "no_run_in p x =
     (\<forall>q \<in> set (suffixes p). q \<noteq> [] \<longrightarrow> q \<noteq> p \<longrightarrow> \<not> prefix q x \<and> \<not> prefix x q)"



section \<open>Properties of the analysis runner\<close>

text \<open>The lines cut from a text make up the text, and no carriage return is left in it.\<close>

lemma concat_readlines: "concat (readlines s) = s"
  by (induction s) (auto split: list.splits)

lemma universal_newlines_no_cr: "CHR 0x0D \<notin> set (universal_newlines s)"
  by (induction s rule: universal_newlines.induct) auto

lemma remappings_loop_filter:
  "remappings_loop acc ls = acc @ filter (\<lambda>l. l \<noteq> [] \<and> \<not> prefix ''#'' l) (map strip ls)"
  by (induction ls arbitrary: acc) (simp_all add: Let_def startswith_def)

lemma extend_remaps_concat:
  "extend_remaps cmd rs = cmd @ concat (map (\<lambda>r. [''--solc-remaps'', r]) rs)"
  by (induction rs arbitrary: cmd) simp_all

text \<open>A run that handed a command to \<open>subprocess.run\<close> found both the remappings file
  and \<open>node_modules\<close>, and the command is the one built from the arguments.\<close>

lemma spawnedD:
  assumes "spawned (main a e) = [(cmd, t)]"
  shows "\<exists>rtext. remappings_txt e = Some rtext \<and> node_modules_exists e
           \<and> cmd = build_cmd a (read_remappings rtext) \<and> t = timeout a"
  using assms
  by (auto simp: main_def Let_def split: option.splits if_splits run_outcome.splits)

lemmas run_simps = main_def Let_def stderr_of_def stdout_of_def out_def err_def
  read_remappings_def file_lines_def strip_def isspace_def startswith_def build_cmd_def
  glob_mcore_def

text \<open>
  C1. When the child process ends within the timeout with return code \<open>c\<close>, the runner
  exits with \<open>c\<close> and prints nothing on the error stream. For \<open>c = 0\<close> it prints the
  success message and no warning about the exit code; for any other \<open>c\<close> it prints the
  warning that carries \<open>c\<close> and not the success message.
\<close>

theorem runner_propagates_exit_code:
  assumes "spawned (main a e) = [(cmd, t)]"
      and "subprocess_run e cmd t = Completed c"
  shows "exit_code (main a e) = c \<and> stderr_of (main a e) = []
       \<and> (if c = 0
          then CompletedSuccessfully \<in> set (stdout_of (main a e))
             \<and> (\<forall>k. CompletedWithWarnings k \<notin> set (stdout_of (main a e)))
          else CompletedWithWarnings c \<in> set (stdout_of (main a e))
             \<and> CompletedSuccessfully \<notin> set (stdout_of (main a e)))"
proof -
  from spawnedD [OF assms(1)] obtain rtext where "remappings_txt e = Some rtext"
    "node_modules_exists e" "cmd = build_cmd a (read_remappings rtext)" "t = timeout a"
    by blast
  with assms(2) show ?thesis
    by (auto simp: main_def Let_def stderr_of_def stdout_of_def out_def err_def)
qed

theorem runner_propagates_exit_code_witness:
  "exit_code (main \<lparr>contract_path = ''C.sol'', contract = ''C'', timeout = 300\<rparr>
      \<lparr>remappings_txt = Some ''a=b\<newline>'', node_modules_exists = True,
       subprocess_run = (\<lambda>cmd t. Completed 3), root_entries = []\<rparr>) = 3
   \<and> CompletedWithWarnings 3 \<in> set (stdout_of
       (main \<lparr>contract_path = ''C.sol'', contract = ''C'', timeout = 300\<rparr>
          \<lparr>remappings_txt = Some ''a=b\<newline>'', node_modules_exists = True,
           subprocess_run = (\<lambda>cmd t. Completed 3), root_entries = []\<rparr>))
   \<and> exit_code (main \<lparr>contract_path = ''C.sol'', contract = ''C'', timeout = 300\<rparr>
      \<lparr>remappings_txt = Some ''a=b\<newline>'', node_modules_exists = True,
       subprocess_run = (\<lambda>cmd t. Completed 0), root_entries = []\<rparr>) = 0
   \<and> CompletedSuccessfully \<in> set (stdout_of
       (main \<lparr>contract_path = ''C.sol'', contract = ''C'', timeout = 300\<rparr>
          \<lparr>remappings_txt = Some ''a=b\<newline>'', node_modules_exists = True,
           subprocess_run = (\<lambda>cmd t. Completed 0), root_entries = []\<rparr>))"
proof -
  let ?a = "\<lparr>contract_path = ''C.sol'', contract = ''C'', timeout = 300\<rparr>"
  let ?e = "\<lparr>remappings_txt = Some ''a=b\<newline>'', node_modules_exists = True,
       subprocess_run = (\<lambda>cmd t. Completed 3), root_entries = []\<rparr>"
  let ?ez = "\<lparr>remappings_txt = Some ''a=b\<newline>'', node_modules_exists = True,
       subprocess_run = (\<lambda>cmd t. Completed 0), root_entries = []\<rparr>"
  let ?cmd = "[''manticore'', ''C.sol'', ''--contract'', ''C'', ''--solc-remaps'', ''a=b'', ''-v'']"
  have h1: "spawned (main ?a ?e) = [(?cmd, 300)]"
    by (simp add: run_simps)
  have h2: "subprocess_run ?e ?cmd 300 = Completed 3"
    by simp
  have k1: "spawned (main ?a ?ez) = [(?cmd, 300)]"
    by (simp add: run_simps)
  have k2: "subprocess_run ?ez ?cmd 300 = Completed 0"
    by simp
  show ?thesis
    using runner_propagates_exit_code [OF h1 h2] runner_propagates_exit_code [OF k1 k2]
    by simp
qed

text \<open>
  C2. When \<open>subprocess.run\<close> raises \<open>TimeoutExpired\<close>, the runner prints the timeout
  warning on the output stream, prints nothing on the error stream and exits with 124.
\<close>

theorem runner_timeout_exit_124:
  assumes "spawned (main a e) = [(cmd, t)]"
      and "subprocess_run e cmd t = TimeoutExpired"
  shows "exit_code (main a e) = 124 \<and> stderr_of (main a e) = []
       \<and> TimedOutAfter t \<in> set (stdout_of (main a e))"
proof -
  from spawnedD [OF assms(1)] obtain rtext where "remappings_txt e = Some rtext"
    "node_modules_exists e" "cmd = build_cmd a (read_remappings rtext)" "t = timeout a"
    by blast
  with assms(2) show ?thesis
    by (auto simp: main_def Let_def stderr_of_def stdout_of_def out_def err_def)
qed

theorem runner_timeout_exit_124_witness:
  "exit_code (main \<lparr>contract_path = ''C.sol'', contract = ''C'', timeout = 5\<rparr>
      \<lparr>remappings_txt = Some ''# none\<newline>'', node_modules_exists = True,
       subprocess_run = (\<lambda>cmd t. TimeoutExpired),
       root_entries = [(''mcore_x'', Directory)]\<rparr>) = 124"
proof -
  let ?a = "\<lparr>contract_path = ''C.sol'', contract = ''C'', timeout = 5\<rparr>"
  let ?e = "\<lparr>remappings_txt = Some ''# none\<newline>'', node_modules_exists = True,
       subprocess_run = (\<lambda>cmd t. TimeoutExpired),
       root_entries = [(''mcore_x'', Directory)]\<rparr>"
  let ?cmd = "[''manticore'', ''C.sol'', ''--contract'', ''C'', ''-v'']"
  have h1: "spawned (main ?a ?e) = [(?cmd, 5)]"
    by (simp add: run_simps)
  have h2: "subprocess_run ?e ?cmd 5 = TimeoutExpired"
    by simp
  show ?thesis
    using runner_timeout_exit_124 [OF h1 h2] by simp
qed

text \<open>
  C3. The remappings read from a file are the stripped lines of the file that are
  neither empty nor start with \<open>#\<close>, in the order of the file; nothing is removed for
  being a duplicate and the kept lines are not changed further.
\<close>

theorem read_remappings_filter:
  "read_remappings rtext =
     filter (\<lambda>l. l \<noteq> [] \<and> \<not> prefix ''#'' l) (map strip (file_lines rtext))"
  by (simp add: read_remappings_def remappings_loop_filter)

theorem read_remappings_filter_witness:
  "read_remappings
     (''# comment'' @ [CHR 0x0D, CHR ''\<newline>''] @ ''  a=b  \<newline>\<newline>a=b\<newline> #x\<newline>c=d'')
   = [''a=b'', ''a=b'', ''c=d'']"
  using read_remappings_filter
    [of "''# comment'' @ [CHR 0x0D, CHR ''\<newline>''] @ ''  a=b  \<newline>\<newline>a=b\<newline> #x\<newline>c=d''"]
  by (simp add: file_lines_def strip_def isspace_def)

text \<open>
  C4. The command is \<open>manticore\<close>, the contract path, \<open>--contract\<close> and the contract
  name, then \<open>--solc-remaps\<close> and the entry for each remapping in order, then \<open>-v\<close>; it
  is the command a run hands to \<open>subprocess.run\<close>, built from the remappings read.
\<close>

theorem build_cmd_shape:
  "build_cmd a rs =
     [''manticore'', contract_path a, ''--contract'', contract a]
     @ concat (map (\<lambda>r. [''--solc-remaps'', r]) rs) @ [''-v'']
   \<and> (\<forall>rtext. remappings_txt e = Some rtext \<and> node_modules_exists e \<longrightarrow>
         spawned (main a e) = [(build_cmd a (read_remappings rtext), timeout a)])"
  by (auto simp: build_cmd_def extend_remaps_concat main_def Let_def split: run_outcome.splits)

theorem build_cmd_shape_witness:
  "build_cmd \<lparr>contract_path = ''src/T.sol'', contract = ''T'', timeout = 300\<rparr> [''a=b'', ''c=d'']
     = [''manticore'', ''src/T.sol'', ''--contract'', ''T'', ''--solc-remaps'', ''a=b'',
        ''--solc-remaps'', ''c=d'', ''-v'']
   \<and> spawned (main \<lparr>contract_path = ''src/T.sol'', contract = ''T'', timeout = 300\<rparr>
        \<lparr>remappings_txt = Some ''a=b\<newline>c=d\<newline>'', node_modules_exists = True,
         subprocess_run = (\<lambda>cmd t. Completed 0), root_entries = []\<rparr>)
     = [([''manticore'', ''src/T.sol'', ''--contract'', ''T'', ''--solc-remaps'', ''a=b'',
          ''--solc-remaps'', ''c=d'', ''-v''], 300)]"
  using build_cmd_shape
    [of "\<lparr>contract_path = ''src/T.sol'', contract = ''T'', timeout = 300\<rparr>" "[''a=b'', ''c=d'']"
        "\<lparr>remappings_txt = Some ''a=b\<newline>c=d\<newline>'', node_modules_exists = True,
          subprocess_run = (\<lambda>cmd t. Completed 0), root_entries = []\<rparr>"]
  by (simp add: read_remappings_def file_lines_def strip_def isspace_def startswith_def)

text \<open>
  C6. After a run whose child process completed or timed out, every directory of the
  project root whose name starts with \<open>mcore_\<close> is among the entries found, and the
  prints end with the heading and one line for each entry found, by its path relative
  to the project root: the heading for results when the child completed, with whatever
  return code, and the heading for partial results when it timed out.
\<close>

theorem runner_lists_results:
  assumes "spawned (main a e) = [(cmd, t)]"
      and "(d, Directory) \<in> set (root_entries e)" and "prefix ''mcore_'' d"
  shows "d \<in> set (glob_mcore (root_entries e))
       \<and> (\<forall>c. subprocess_run e cmd t = Completed c \<longrightarrow>
            (\<exists>before. events (main a e) =
                before @ out (ResultsSavedIn # map ResultEntry (glob_mcore (root_entries e)))
              \<and> PartialResultsFoundIn \<notin> snd ` set before))
       \<and> (subprocess_run e cmd t = TimeoutExpired \<longrightarrow>
            (\<exists>before. events (main a e) =
                before @ out (PartialResultsFoundIn # map ResultEntry (glob_mcore (root_entries e)))
              \<and> ResultsSavedIn \<notin> snd ` set before))"
proof -
  from spawnedD [OF assms(1)] obtain rtext where c: "remappings_txt e = Some rtext"
    "node_modules_exists e" "cmd = build_cmd a (read_remappings rtext)" "t = timeout a"
    by blast
  from assms(2,3) have g: "d \<in> set (glob_mcore (root_entries e))"
    by (force simp: glob_mcore_def)
  then have ne: "glob_mcore (root_entries e) \<noteq> []" by auto
  show ?thesis using c g ne
    by (auto simp: main_def Let_def out_def)
qed

theorem runner_lists_results_witness:
  "events (main \<lparr>contract_path = ''C.sol'', contract = ''C'', timeout = 5\<rparr>
      \<lparr>remappings_txt = Some [], node_modules_exists = True,
       subprocess_run = (\<lambda>cmd t. TimeoutExpired),
       root_entries = [(''src'', Directory), (''mcore_a1'', Directory),
                       (''mcore_b2'', Directory)]\<rparr>)
   = out [UsingRemappings [],
          RunningCommand [''manticore'', ''C.sol'', ''--contract'', ''C'', ''-v''],
          WorkingDirectory, StartingAnalysis 5, MayTakeSeveralMinutes,
          TimedOutAfter 5, PartialResultsMayBeAvailable,
          PartialResultsFoundIn, ResultEntry ''mcore_a1'', ResultEntry ''mcore_b2'']
   \<and> events (main \<lparr>contract_path = ''C.sol'', contract = ''C'', timeout = 5\<rparr>
      \<lparr>remappings_txt = Some [], node_modules_exists = True,
       subprocess_run = (\<lambda>cmd t. Completed 2),
       root_entries = [(''src'', Directory), (''mcore_a1'', Directory),
                       (''mcore_b2'', Directory)]\<rparr>)
   = out [UsingRemappings [],
          RunningCommand [''manticore'', ''C.sol'', ''--contract'', ''C'', ''-v''],
          WorkingDirectory, StartingAnalysis 5, MayTakeSeveralMinutes,
          CompletedWithWarnings 2,
          ResultsSavedIn, ResultEntry ''mcore_a1'', ResultEntry ''mcore_b2'']"
proof -
  let ?a = "\<lparr>contract_path = ''C.sol'', contract = ''C'', timeout = 5\<rparr>"
  let ?e = "\<lparr>remappings_txt = Some [], node_modules_exists = True,
       subprocess_run = (\<lambda>cmd t. TimeoutExpired),
       root_entries = [(''src'', Directory), (''mcore_a1'', Directory),
                       (''mcore_b2'', Directory)]\<rparr>"
  let ?ec = "\<lparr>remappings_txt = Some [], node_modules_exists = True,
       subprocess_run = (\<lambda>cmd t. Completed 2),
       root_entries = [(''src'', Directory), (''mcore_a1'', Directory),
                       (''mcore_b2'', Directory)]\<rparr>"
  let ?cmd = "[''manticore'', ''C.sol'', ''--contract'', ''C'', ''-v'']"
  have h1: "spawned (main ?a ?e) = [(?cmd, 5)]"
    by (simp add: run_simps)
  have h2: "(''mcore_b2'', Directory) \<in> set (root_entries ?e)"
    by simp
  have h3: "prefix ''mcore_'' ''mcore_b2''"
    by simp
  have h4: "subprocess_run ?e ?cmd 5 = TimeoutExpired"
    by simp
  have k1: "spawned (main ?a ?ec) = [(?cmd, 5)]"
    by (simp add: run_simps)
  have k2: "(''mcore_b2'', Directory) \<in> set (root_entries ?ec)"
    by simp
  have k4: "subprocess_run ?ec ?cmd 5 = Completed 2"
    by simp
  from runner_lists_results [OF h1 h2 h3] h4
  obtain before where "events (main ?a ?e) =
      before @ out (PartialResultsFoundIn # map ResultEntry (glob_mcore (root_entries ?e)))"
    by blast
  then have 1: "events (main ?a ?e)
      = out [UsingRemappings [],
          RunningCommand [''manticore'', ''C.sol'', ''--contract'', ''C'', ''-v''],
          WorkingDirectory, StartingAnalysis 5, MayTakeSeveralMinutes,
          TimedOutAfter 5, PartialResultsMayBeAvailable,
          PartialResultsFoundIn, ResultEntry ''mcore_a1'', ResultEntry ''mcore_b2'']"
    by (simp add: run_simps)
  from runner_lists_results [OF k1 k2 h3] k4
  obtain before2 where "events (main ?a ?ec) =
      before2 @ out (ResultsSavedIn # map ResultEntry (glob_mcore (root_entries ?ec)))"
    by blast
  then have 2: "events (main ?a ?ec)
      = out [UsingRemappings [],
          RunningCommand [''manticore'', ''C.sol'', ''--contract'', ''C'', ''-v''],
          WorkingDirectory, StartingAnalysis 5, MayTakeSeveralMinutes,
          CompletedWithWarnings 2,
          ResultsSavedIn, ResultEntry ''mcore_a1'', ResultEntry ''mcore_b2'']"
    by (simp add: run_simps)
  from 1 2 show ?thesis
    by (intro conjI)
qed

text \<open>
  C7. Without \<open>remappings.txt\<close> the runner prints its error about the remappings
  file on the error stream, exits with 1 and hands no command to \<open>subprocess.run\<close>.
  Without \<open>node_modules\<close> it exits with 1 as well, with no command run and nothing but
  errors printed; when the remappings file is there, the error printed is the one about
  \<open>node_modules\<close>, followed by the hint to run \<open>npm ci\<close>.
\<close>

theorem runner_config_errors:
  "(remappings_txt e = None \<longrightarrow>
      exit_code (main a e) = 1 \<and> spawned (main a e) = []
      \<and> events (main a e) = err [RemappingsNotFound])
   \<and> (\<not> node_modules_exists e \<longrightarrow>
      exit_code (main a e) = 1 \<and> spawned (main a e) = [] \<and> stdout_of (main a e) = []
      \<and> (remappings_txt e \<noteq> None \<longrightarrow>
            events (main a e) = err [NodeModulesNotFound, RunNpmCiFirst]))"
  by (auto simp: main_def Let_def stdout_of_def err_def split: option.splits)

theorem runner_config_errors_witness:
  "exit_code (main \<lparr>contract_path = ''C.sol'', contract = ''C'', timeout = 300\<rparr>
      \<lparr>remappings_txt = None, node_modules_exists = True,
       subprocess_run = (\<lambda>cmd t. Completed 0), root_entries = []\<rparr>) = 1
   \<and> spawned (main \<lparr>contract_path = ''C.sol'', contract = ''C'', timeout = 300\<rparr>
      \<lparr>remappings_txt = None, node_modules_exists = True,
       subprocess_run = (\<lambda>cmd t. Completed 0), root_entries = []\<rparr>) = []
   \<and> events (main \<lparr>contract_path = ''C.sol'', contract = ''C'', timeout = 300\<rparr>
      \<lparr>remappings_txt = Some ''a=b'', node_modules_exists = False,
       subprocess_run = (\<lambda>cmd t. Completed 0), root_entries = []\<rparr>)
     = [(Stderr, NodeModulesNotFound), (Stderr, RunNpmCiFirst)]"
  using runner_config_errors
    [of "\<lparr>remappings_txt = None, node_modules_exists = True,
          subprocess_run = (\<lambda>cmd t. Completed 0), root_entries = []\<rparr>"
        "\<lparr>contract_path = ''C.sol'', contract = ''C'', timeout = 300\<rparr>"]
    runner_config_errors
    [of "\<lparr>remappings_txt = Some ''a=b'', node_modules_exists = False,
          subprocess_run = (\<lambda>cmd t. Completed 0), root_entries = []\<rparr>"
        "\<lparr>contract_path = ''C.sol'', contract = ''C'', timeout = 300\<rparr>"]
  by (simp add: err_def)


section \<open>Scanning a string for a pattern\<close>

subsection \<open>\<open>replace\<close> step by step\<close>

text \<open>
  For a non-empty \<open>old\<close> the scan of \<open>replace\<close> has three cases: the text is
  over, \<open>old\<close> begins the text and is replaced, or the first character is kept.
\<close>

lemma replace_Nil: "old \<noteq> [] \<Longrightarrow> replace old new [] = []"
  by (simp add: replace.simps)

lemma replace_match:
  "old \<noteq> [] \<Longrightarrow> prefix old s \<Longrightarrow> replace old new s = new @ replace old new (drop (length old) s)"
  by (subst replace.simps) auto

lemma replace_nomatch:
  "old \<noteq> [] \<Longrightarrow> \<not> prefix old (c # cs) \<Longrightarrow> replace old new (c # cs) = c # replace old new cs"
  by (subst replace.simps) simp

text \<open>Induction along the scan.\<close>

lemma scan_induct [consumes 1, case_names Nil Match NoMatch]:
  assumes "old \<noteq> []"
    and "Q []"
    and "\<And>s. prefix old s \<Longrightarrow> Q (drop (length old) s) \<Longrightarrow> Q s"
    and "\<And>c cs. \<not> prefix old (c # cs) \<Longrightarrow> Q cs \<Longrightarrow> Q (c # cs)"
  shows "Q s"
proof (induction s rule: length_induct)
  case (1 s)
  show ?case
  proof (cases "prefix old s")
    case True
    with assms(1) have "length (drop (length old) s) < length s"
      by (auto simp: prefix_def)
    with 1 have "Q (drop (length old) s)" by blast
    with True show ?thesis by (rule assms(3))
  next
    case False
    show ?thesis
    proof (cases s)
      case Nil
      then show ?thesis using assms(2) by simp
    next
      case (Cons c cs)
      with 1 have "Q cs" by simp
      with False Cons show ?thesis using assms(4) by simp
    qed
  qed
qed

lemma sublist_trans: "sublist a b \<Longrightarrow> sublist b c \<Longrightarrow> sublist a (c :: 'a list)"
  by (rule sublist_order.order_trans)

lemma prefix_appendD: "prefix p (t @ b) \<Longrightarrow> prefix p t \<or> prefix t p"
  by (auto simp: prefix_append)

lemma prefix_append_strictD: "prefix p (t @ b) \<Longrightarrow> prefix p t \<or> strict_prefix t p"
  by (auto simp: prefix_append strict_prefix_def)

lemma sublist_appendD:
  "sublist p (a @ b) \<Longrightarrow> sublist p b \<or> (\<exists>t. suffix t a \<and> t \<noteq> [] \<and> prefix p (t @ b))"
proof (induction a)
  case Nil
  then show ?case by simp
next
  case (Cons x xs)
  from Cons.prems have "prefix p ((x # xs) @ b) \<or> sublist p (xs @ b)"
    by (simp add: sublist_Cons_right)
  then show ?case
  proof
    assume "prefix p ((x # xs) @ b)"
    then show ?thesis by (intro disjI2 exI[of _ "x # xs"]) simp
  next
    assume "sublist p (xs @ b)"
    with Cons.IH show ?thesis by (auto simp: suffix_Cons)
  qed
qed

text \<open>
  An end of \<open>p\<close> that begins the result of a replacement began the text already, and
  the other way round, under the conditions on the overlaps.
\<close>

lemma prefix_replaceD:
  assumes "old \<noteq> []" and "heads_agree p old new"
  shows "suffix q p \<Longrightarrow> prefix q (replace old new s) \<Longrightarrow> prefix q s"
  using assms(1)
proof (induction s arbitrary: q rule: scan_induct)
  case Nil
  then show ?case using assms(1) by (simp add: replace_Nil)
next
  case (Match s)
  show ?case
  proof (cases "q = []")
    case True
    then show ?thesis by simp
  next
    case False
    from Match.hyps Match.prems(2) assms(1)
    have "prefix q (new @ replace old new (drop (length old) s))"
      by (simp add: replace_match)
    then have "prefix q new \<or> prefix new q" by (rule prefix_appendD)
    with assms(2) Match.prems(1) False have "prefix q old"
      by (auto simp: heads_agree_def)
    with Match.hyps show ?thesis by (blast intro: prefix_order.trans)
  qed
next
  case (NoMatch c cs)
  show ?case
  proof (cases q)
    case Nil
    then show ?thesis by simp
  next
    case (Cons d q')
    from NoMatch.hyps NoMatch.prems(2) assms(1) Cons
    have "d = c" and "prefix q' (replace old new cs)"
      by (simp_all add: replace_nomatch)
    moreover from NoMatch.prems(1) Cons have "suffix q' p"
      by (auto dest: suffix_ConsD)
    ultimately show ?thesis using NoMatch.IH Cons by simp
  qed
qed

lemma prefix_replaceI:
  assumes "old \<noteq> []" and "\<not> sublist old p" and "tails_agree p old new"
  shows "suffix q p \<Longrightarrow> prefix q s \<Longrightarrow> prefix q (replace old new s)"
  using assms(1)
proof (induction s arbitrary: q rule: scan_induct)
  case Nil
  then show ?case using assms(1) by (simp add: replace_Nil)
next
  case (Match s)
  show ?case
  proof (cases "q = []")
    case True
    then show ?thesis by simp
  next
    case False
    from Match.hyps Match.prems(2) have "prefix q old \<or> prefix old q"
      by (metis prefix_same_cases)
    moreover have "\<not> prefix old q"
    proof
      assume "prefix old q"
      then have "sublist old q" by (rule prefix_imp_sublist)
      moreover from Match.prems(1) have "sublist q p" by (rule suffix_imp_sublist)
      ultimately have "sublist old p" by (rule sublist_trans)
      with assms(2) show False by contradiction
    qed
    ultimately have "prefix q old" by blast
    with assms(3) Match.prems(1) False have "prefix q new"
      by (auto simp: tails_agree_def)
    with Match.hyps assms(1) show ?thesis
      by (simp add: replace_match prefix_prefix)
  qed
next
  case (NoMatch c cs)
  show ?case
  proof (cases q)
    case Nil
    then show ?thesis by simp
  next
    case (Cons d q')
    from NoMatch.prems(2) Cons have "d = c" and "prefix q' cs" by simp_all
    moreover from NoMatch.prems(1) Cons have "suffix q' p"
      by (auto dest: suffix_ConsD)
    ultimately have "prefix q' (replace old new cs)" using NoMatch.IH by blast
    with NoMatch.hyps assms(1) Cons \<open>d = c\<close> show ?thesis
      by (simp add: replace_nomatch)
  qed
qed


lemma replace_absent:
  assumes "old \<noteq> []"
  shows "\<not> sublist old s \<Longrightarrow> replace old new s = s"
  using assms
proof (induction s rule: scan_induct)
  case Nil
  then show ?case using assms by (simp add: replace_Nil)
next
  case (Match s)
  then show ?case by (simp add: prefix_imp_sublist)
next
  case (NoMatch c cs)
  then show ?case using assms by (simp add: replace_nomatch sublist_Cons_right)
qed

lemma replace_puts_new:
  assumes "old \<noteq> []"
  shows "sublist old s \<Longrightarrow> sublist new (replace old new s)"
  using assms
proof (induction s rule: scan_induct)
  case Nil
  then show ?case using assms by simp
next
  case (Match s)
  then show ?case using assms by (simp add: replace_match)
next
  case (NoMatch c cs)
  then show ?case using assms by (simp add: replace_nomatch sublist_Cons_right)
qed

lemma prefix_Cons_rightD: "prefix p (c # r) \<Longrightarrow> p \<noteq> [] \<Longrightarrow> hd p = c \<and> prefix (tl p) r"
  by (cases p) auto

lemma prefix_Cons_rightI: "p \<noteq> [] \<Longrightarrow> hd p = c \<Longrightarrow> prefix (tl p) r \<Longrightarrow> prefix p (c # r)"
  by (cases p) auto

text \<open>When \<open>new\<close> cannot form \<open>old\<close> with what surrounds it, no \<open>old\<close> is left.\<close>

lemma replace_removes_old:
  assumes "old \<noteq> []" and "heads_agree old old new" and "no_start_in old new"
  shows "\<not> sublist old (replace old new s)"
  using assms(1)
proof (induction s rule: scan_induct)
  case Nil
  then show ?case using assms(1) by (simp add: replace_Nil)
next
  case (Match s)
  let ?r = "replace old new (drop (length old) s)"
  have "\<not> sublist old (new @ ?r)"
  proof
    assume "sublist old (new @ ?r)"
    with Match.IH obtain t where t: "suffix t new" "t \<noteq> []" "prefix old (t @ ?r)"
      by (blast dest: sublist_appendD)
    from t(3) have "prefix old t \<or> prefix t old" by (rule prefix_appendD)
    with assms(3) t(1,2) show False by (auto simp: no_start_in_def)
  qed
  with Match.hyps assms(1) show ?case by (simp add: replace_match)
next
  case (NoMatch c cs)
  have "\<not> prefix old (c # replace old new cs)"
  proof
    assume a: "prefix old (c # replace old new cs)"
    from a assms(1) have h: "hd old = c" "prefix (tl old) (replace old new cs)"
      by (auto dest: prefix_Cons_rightD)
    have "suffix (tl old) old" by (rule suffix_tl)
    with h(2) have "prefix (tl old) cs"
      using prefix_replaceD [OF assms(1,2)] by blast
    with h(1) assms(1) have "prefix old (c # cs)" by (blast intro: prefix_Cons_rightI)
    with NoMatch.hyps show False by contradiction
  qed
  with NoMatch.IH NoMatch.hyps assms(1) show ?case
    by (simp add: replace_nomatch sublist_Cons_right)
qed

text \<open>Counting the occurrences of a pattern in a text put together from parts.\<close>

lemma sublist_iff_occurrences: "sublist p s \<longleftrightarrow> 0 < occurrences p s"
  by (induction s) (auto simp: sublist_Cons_right)

lemma occurrences_append_ge:
  assumes "p \<noteq> []"
  shows "occurrences p a + occurrences p b \<le> occurrences p (a @ b)"
proof (induction a)
  case Nil
  then show ?case using assms by simp
next
  case (Cons x xs)
  have "prefix p (x # xs) \<Longrightarrow> prefix p (x # xs @ b)"
    using prefix_prefix [of p "x # xs" b] by simp
  with Cons show ?case by auto
qed

lemma occurrences_append_right_le: "occurrences p b \<le> occurrences p (a @ b)"
  by (induction a) auto

lemma occurrences_skip:
  "(\<And>t. suffix t a \<Longrightarrow> t \<noteq> [] \<Longrightarrow> \<not> prefix p (t @ b)) \<Longrightarrow>
     occurrences p (a @ b) = occurrences p b"
proof (induction a)
  case Nil
  then show ?case by simp
next
  case (Cons x xs)
  have "\<not> prefix p ((x # xs) @ b)"
    by (rule Cons.prems) simp_all
  moreover have "\<And>t. suffix t xs \<Longrightarrow> t \<noteq> [] \<Longrightarrow> \<not> prefix p (t @ b)"
    using Cons.prems by (simp add: suffix_ConsI)
  then have "occurrences p (xs @ b) = occurrences p b"
    by (rule Cons.IH)
  ultimately show ?case by simp
qed

lemma occurrences_skip_old:
  assumes "no_start_in p x"
  shows "occurrences p (x @ b) = occurrences p b"
proof (rule occurrences_skip)
  fix t assume "suffix t x" "t \<noteq> []"
  with assms have "\<not> prefix p t \<and> \<not> prefix t p" by (auto simp: no_start_in_def)
  then show "\<not> prefix p (t @ b)" by (blast dest: prefix_appendD)
qed

lemma occurrences_append_eq:
  assumes "p \<noteq> []"
  shows "no_run_out p a \<Longrightarrow> occurrences p (a @ b) = occurrences p a + occurrences p b"
proof (induction a)
  case Nil
  then show ?case using assms by simp
next
  case (Cons x xs)
  from Cons.prems have "no_run_out p xs"
    by (auto simp: no_run_out_def suffix_Cons)
  then have IH: "occurrences p (xs @ b) = occurrences p xs + occurrences p b"
    by (rule Cons.IH)
  have "prefix p ((x # xs) @ b) \<longleftrightarrow> prefix p (x # xs)"
  proof
    assume "prefix p ((x # xs) @ b)"
    then have "prefix p (x # xs) \<or> strict_prefix (x # xs) p"
      by (rule prefix_append_strictD)
    with Cons.prems show "prefix p (x # xs)" by (auto simp: no_run_out_def)
  next
    assume "prefix p (x # xs)"
    then show "prefix p ((x # xs) @ b)" by (rule prefix_prefix)
  qed
  with IH show ?case by simp
qed

lemma occurrences_self_append:
  assumes "p \<noteq> []" and "border_free p"
  shows "occurrences p (p @ b) = Suc (occurrences p b)"
proof -
  from assms(1) obtain c p' where p: "p = c # p'" by (cases p) auto
  have "occurrences p (p' @ b) = occurrences p b"
  proof (rule occurrences_skip)
    fix t assume t: "suffix t p'" "t \<noteq> []"
    with p have "suffix t p" and "t \<noteq> p"
      by (auto simp: suffix_ConsI dest: suffix_length_le)
    with assms(2) t(2) have np: "\<not> prefix t p" by (auto simp: border_free_def)
    show "\<not> prefix p (t @ b)"
    proof
      assume "prefix p (t @ b)"
      then have "prefix p t \<or> prefix t p" by (rule prefix_appendD)
      with np have "prefix p t" by blast
      with \<open>suffix t p\<close> \<open>t \<noteq> p\<close> show False
        by (metis prefix_length_le suffix_length_le suffix_order.eq_iff le_antisym
            suffix_length_suffix suffix_order.refl)
    qed
  qed
  with p show ?thesis by simp
qed


lemma prefix_split: "prefix old s \<Longrightarrow> s = old @ drop (length old) s"
  by (auto simp: prefix_def)

text \<open>
  A replacement adds to the occurrences of \<open>p\<close> those inside each copy of \<open>new\<close>,
  and nothing else, when \<open>p\<close> overlaps \<open>old\<close> and \<open>new\<close> in no other way.
\<close>

lemma occurrences_replace_le:
  assumes "p \<noteq> []" and "old \<noteq> []" and "border_free old"
    and "heads_agree p old new" and "no_run_out p new"
  shows "occurrences p (replace old new s)
           \<le> occurrences p s + occurrences old s * occurrences p new"
  using assms(2)
proof (induction s rule: scan_induct)
  case Nil
  then show ?case using assms(1,2) by (simp add: replace_Nil)
next
  case (Match s)
  let ?rest = "drop (length old) s"
  from Match.hyps have s: "s = old @ ?rest" by (rule prefix_split)
  have "occurrences p (replace old new s) = occurrences p new + occurrences p (replace old new ?rest)"
    using Match.hyps assms(1,2,5) by (simp add: replace_match occurrences_append_eq)
  moreover have "occurrences p ?rest \<le> occurrences p s"
    using occurrences_append_right_le [of p ?rest old] s by simp
  moreover have "occurrences old s = Suc (occurrences old ?rest)"
    using occurrences_self_append [OF assms(2,3), of ?rest] s by simp
  ultimately show ?case using Match.IH by simp
next
  case (NoMatch c cs)
  have "prefix p (c # replace old new cs) \<Longrightarrow> prefix p (c # cs)"
    using prefix_replaceD [OF assms(2,4), of p "c # cs"] NoMatch.hyps assms(2)
    by (simp add: replace_nomatch)
  with NoMatch show ?case using assms(2) by (auto simp: replace_nomatch)
qed

lemma occurrences_replace_ge:
  assumes "p \<noteq> []" and "old \<noteq> []" and "border_free old"
    and "no_start_in p old" and "\<not> sublist old p" and "tails_agree p old new"
  shows "occurrences p s + occurrences old s * occurrences p new
           \<le> occurrences p (replace old new s)"
  using assms(2)
proof (induction s rule: scan_induct)
  case Nil
  then show ?case using assms(1,2) by (simp add: replace_Nil)
next
  case (Match s)
  let ?rest = "drop (length old) s"
  from Match.hyps have s: "s = old @ ?rest" by (rule prefix_split)
  have "occurrences p new + occurrences p (replace old new ?rest)
          \<le> occurrences p (replace old new s)"
    using Match.hyps assms(1,2) by (simp add: replace_match occurrences_append_ge)
  moreover have "occurrences p s = occurrences p ?rest"
    using occurrences_skip_old [OF assms(4), of ?rest] s by simp
  moreover have "occurrences old s = Suc (occurrences old ?rest)"
    using occurrences_self_append [OF assms(2,3), of ?rest] s by simp
  ultimately show ?case using Match.IH by simp
next
  case (NoMatch c cs)
  have "prefix p (c # cs) \<Longrightarrow> prefix p (c # replace old new cs)"
    using prefix_replaceI [OF assms(2,5,6), of p "c # cs"] NoMatch.hyps assms(2)
    by (simp add: replace_nomatch)
  with NoMatch show ?case using assms(2) by (auto simp: replace_nomatch)
qed

lemma replace_keeps:
  assumes "p \<noteq> []" and "old \<noteq> []" and "border_free old"
    and "no_start_in p old" and "\<not> sublist old p" and "tails_agree p old new"
    and "sublist p s"
  shows "sublist p (replace old new s)"
proof -
  from assms(7) have "0 < occurrences p s" by (simp add: sublist_iff_occurrences)
  with occurrences_replace_ge [OF assms(1-6), of s] show ?thesis
    by (simp add: sublist_iff_occurrences)
qed

lemma replace_makes_no:
  assumes "p \<noteq> []" and "old \<noteq> []" and "border_free old"
    and "heads_agree p old new" and "no_run_out p new" and "\<not> sublist p new"
    and "\<not> sublist p s"
  shows "\<not> sublist p (replace old new s)"
  using occurrences_replace_le [OF assms(1-5), of s] assms(6,7)
  by (simp add: sublist_iff_occurrences)

lemma occurrences_replace:
  assumes "p \<noteq> []" and "old \<noteq> []" and "border_free old"
    and "heads_agree p old new" and "no_run_out p new"
    and "no_start_in p old" and "\<not> sublist old p" and "tails_agree p old new"
  shows "occurrences p (replace old new s)
           = occurrences p s + occurrences old s * occurrences p new"
  using occurrences_replace_le [OF assms(1-5), of s]
    occurrences_replace_ge [OF assms(1-3) assms(6-8), of s]
  by (rule order_antisym)

lemma no_start_in_not_sublist:
  assumes "p \<noteq> []" and "no_start_in p x"
  shows "\<not> sublist p x"
proof
  assume "sublist p x"
  then obtain t where t: "suffix t x" "prefix p t"
    by (auto simp: sublist_altdef')
  with assms(1) have "t \<noteq> []" by auto
  with assms(2) t show False by (auto simp: no_start_in_def)
qed

lemma occurrences_append_within:
  assumes "p \<noteq> []"
  shows "(\<And>t. suffix t a \<Longrightarrow> t \<noteq> [] \<Longrightarrow> prefix p (t @ b) \<Longrightarrow> prefix p t) \<Longrightarrow>
     occurrences p (a @ b) = occurrences p a + occurrences p b"
proof (induction a)
  case Nil
  then show ?case using assms by simp
next
  case (Cons x xs)
  have "\<And>t. suffix t xs \<Longrightarrow> t \<noteq> [] \<Longrightarrow> prefix p (t @ b) \<Longrightarrow> prefix p t"
    using Cons.prems by (simp add: suffix_ConsI)
  then have IH: "occurrences p (xs @ b) = occurrences p xs + occurrences p b"
    by (rule Cons.IH)
  have "prefix p ((x # xs) @ b) \<longleftrightarrow> prefix p (x # xs)"
    using Cons.prems [of "x # xs"] prefix_prefix [of p "x # xs" b] by auto
  with IH show ?case by simp
qed

subsection \<open>\<open>str_split\<close> and \<open>str_join\<close>\<close>

lemma str_split_Nil: "str_split sep [] = [[]]"
  by (simp add: str_split.simps)

lemma str_split_match:
  "sep \<noteq> [] \<Longrightarrow> prefix sep s \<Longrightarrow> str_split sep s = [] # str_split sep (drop (length sep) s)"
  by (subst str_split.simps) auto

lemma str_split_not_Nil: "str_split sep s \<noteq> []"
  by (subst str_split.simps) (auto split: list.splits)

lemma str_split_nomatch:
  "sep \<noteq> [] \<Longrightarrow> \<not> prefix sep (c # cs) \<Longrightarrow>
     str_split sep (c # cs) = (c # hd (str_split sep cs)) # tl (str_split sep cs)"
  using str_split_not_Nil [of sep cs]
  by (subst str_split.simps) (auto split: list.splits)

lemma str_join_Cons: "ys \<noteq> [] \<Longrightarrow> str_join sep (x # ys) = x @ sep @ str_join sep ys"
  by (cases ys) simp_all

lemma str_join_Cons_Cons: "str_join sep ((c # x) # xs) = c # str_join sep (x # xs)"
  by (cases xs) simp_all

text \<open>
  Python's identities \<open>s.replace(old, new) == new.join(s.split(old))\<close> and
  \<open>sep.join(s.split(sep)) == s\<close>.
\<close>

lemma replace_is_join_split:
  assumes "old \<noteq> []"
  shows "replace old new s = str_join new (str_split old s)"
  using assms
proof (induction s rule: scan_induct)
  case Nil
  then show ?case using assms by (simp add: replace_Nil str_split_Nil)
next
  case (Match s)
  then show ?case using assms
    by (simp add: replace_match str_split_match str_join_Cons str_split_not_Nil)
next
  case (NoMatch c cs)
  have "str_join new ((c # hd (str_split old cs)) # tl (str_split old cs))
          = c # str_join new (str_split old cs)"
    using str_split_not_Nil [of old cs] by (simp add: str_join_Cons_Cons)
  with NoMatch show ?case using assms
    by (simp add: replace_nomatch str_split_nomatch)
qed

lemma join_split:
  assumes "sep \<noteq> []"
  shows "str_join sep (str_split sep s) = s"
  using assms
proof (induction s rule: scan_induct)
  case Nil
  then show ?case by (simp add: str_split_Nil)
next
  case (Match s)
  have "str_join sep (str_split sep s) = sep @ drop (length sep) s"
    using Match assms by (simp add: str_split_match str_join_Cons str_split_not_Nil)
  with prefix_split [OF Match.hyps] show ?case by simp
next
  case (NoMatch c cs)
  have "str_join sep ((c # hd (str_split sep cs)) # tl (str_split sep cs))
          = c # str_join sep (str_split sep cs)"
    using str_split_not_Nil [of sep cs] by (simp add: str_join_Cons_Cons)
  with NoMatch show ?case using assms by (simp add: str_split_nomatch)
qed

lemma length_split:
  assumes "sep \<noteq> []" and "border_free sep"
  shows "length (str_split sep s) = Suc (occurrences sep s)"
  using assms(1)
proof (induction s rule: scan_induct)
  case Nil
  then show ?case using assms(1) by (simp add: str_split_Nil)
next
  case (Match s)
  have "occurrences sep s = Suc (occurrences sep (drop (length sep) s))"
    using occurrences_self_append [OF assms, of "drop (length sep) s"] prefix_split [OF Match.hyps]
    by simp
  with Match show ?case using assms(1) by (simp add: str_split_match)
next
  case (NoMatch c cs)
  then show ?case using assms(1) str_split_not_Nil [of sep cs]
    by (simp add: str_split_nomatch)
qed

lemma in_join: "x \<in> set xs \<Longrightarrow> sublist x (str_join sep xs)"
proof (induction sep xs rule: str_join.induct)
  case (3 sep y z zs)
  show ?case
  proof (cases "x = y")
    case True
    then show ?thesis by simp
  next
    case False
    with 3 have "sublist x (str_join sep (z # zs))" by simp
    then have "sublist x ((y @ sep) @ str_join sep (z # zs))"
      by (metis sublist_append)
    then show ?thesis by simp
  qed
qed simp_all

text \<open>A replacement works on the parts of a text when \<open>old\<close> cannot lie across them.\<close>

lemma replace_append:
  assumes "old \<noteq> []"
  shows "(\<And>t. suffix t a \<Longrightarrow> t \<noteq> [] \<Longrightarrow> prefix old (t @ b) \<Longrightarrow> prefix old t) \<Longrightarrow>
     replace old new (a @ b) = replace old new a @ replace old new b"
  using assms
proof (induction a rule: scan_induct)
  case Nil
  then show ?case using assms by (simp add: replace_Nil)
next
  case (Match a)
  let ?rest = "drop (length old) a"
  have "\<And>t. suffix t ?rest \<Longrightarrow> t \<noteq> [] \<Longrightarrow> prefix old (t @ b) \<Longrightarrow> prefix old t"
    using Match.prems suffix_drop [of "length old" a] by (blast intro: suffix_order.trans)
  then have "replace old new (?rest @ b) = replace old new ?rest @ replace old new b"
    by (rule Match.IH)
  moreover from Match.hyps have "prefix old (a @ b)" by (rule prefix_prefix)
  moreover from Match.hyps have "drop (length old) (a @ b) = ?rest @ b"
    by (auto simp: prefix_def)
  ultimately show ?case using Match.hyps assms by (simp add: replace_match)
next
  case (NoMatch c cs)
  have "\<not> prefix old ((c # cs) @ b)"
    using NoMatch.prems [of "c # cs"] NoMatch.hyps by auto
  moreover have "\<And>t. suffix t cs \<Longrightarrow> t \<noteq> [] \<Longrightarrow> prefix old (t @ b) \<Longrightarrow> prefix old t"
    using NoMatch.prems by (simp add: suffix_ConsI)
  then have "replace old new (cs @ b) = replace old new cs @ replace old new b"
    by (rule NoMatch.IH)
  ultimately show ?case using NoMatch.hyps assms by (simp add: replace_nomatch)
qed

lemma replace_join:
  assumes "old \<noteq> []" and "no_run_in old sep" and "no_start_in old sep"
  shows "replace old new (str_join sep xs) = str_join sep (map (replace old new) xs)"
proof (induction xs)
  case Nil
  then show ?case using assms(1) by (simp add: replace_Nil)
next
  case (Cons x xs)
  show ?case
  proof (cases "xs = []")
    case True
    then show ?thesis by simp
  next
    case False
    let ?J = "str_join sep xs"
    have 1: "replace old new (x @ sep @ ?J) = replace old new x @ replace old new (sep @ ?J)"
    proof (rule replace_append [OF assms(1)])
      fix t assume t: "suffix t x" "t \<noteq> []" "prefix old (t @ sep @ ?J)"
      show "prefix old t"
      proof (rule ccontr)
        assume n: "\<not> prefix old t"
        with t(3) obtain us where us: "old = t @ us" "prefix us (sep @ ?J)"
          by (auto simp: prefix_append)
        with n t(2) have "us \<noteq> []" "us \<noteq> old" "suffix us old"
          by (auto simp: suffix_def)
        with assms(2) have "\<not> prefix us sep \<and> \<not> prefix sep us"
          by (auto simp: no_run_in_def)
        with us(2) show False by (blast dest: prefix_appendD)
      qed
    qed
    have 2: "replace old new (sep @ ?J) = replace old new sep @ replace old new ?J"
    proof (rule replace_append [OF assms(1)])
      fix t assume t: "suffix t sep" "t \<noteq> []" "prefix old (t @ ?J)"
      from t(3) have "prefix old t \<or> prefix t old" by (rule prefix_appendD)
      with assms(3) t(1,2) show "prefix old t" by (auto simp: no_start_in_def)
    qed
    have 3: "replace old new sep = sep"
      using assms(1,3) by (simp add: replace_absent no_start_in_not_sublist)
    from False 1 2 3 Cons.IH show ?thesis
      by (simp add: str_join_Cons)
  qed
qed

lemma occurrences_join:
  assumes "p \<noteq> []" and "no_run_in p sep" and "no_start_in p sep"
  shows "occurrences p (str_join sep xs) = sum_list (map (occurrences p) xs)"
proof (induction xs)
  case Nil
  then show ?case using assms(1) by simp
next
  case (Cons x xs)
  show ?case
  proof (cases "xs = []")
    case True
    then show ?thesis by simp
  next
    case False
    let ?J = "str_join sep xs"
    have "occurrences p (x @ sep @ ?J) = occurrences p x + occurrences p (sep @ ?J)"
    proof (rule occurrences_append_within [OF assms(1)])
      fix t assume t: "suffix t x" "t \<noteq> []" "prefix p (t @ sep @ ?J)"
      show "prefix p t"
      proof (rule ccontr)
        assume n: "\<not> prefix p t"
        with t(3) obtain us where us: "p = t @ us" "prefix us (sep @ ?J)"
          by (auto simp: prefix_append)
        with n t(2) have "us \<noteq> []" "us \<noteq> p" "suffix us p"
          by (auto simp: suffix_def)
        with assms(2) have "\<not> prefix us sep \<and> \<not> prefix sep us"
          by (auto simp: no_run_in_def)
        with us(2) show False by (blast dest: prefix_appendD)
      qed
    qed
    moreover have "occurrences p (sep @ ?J) = occurrences p ?J"
      by (rule occurrences_skip_old [OF assms(3)])
    ultimately show ?thesis using False Cons.IH by (simp add: str_join_Cons)
  qed
qed

lemma sum_list_insert:
  "sum_list (map f (list_insert i x xs)) = f x + sum_list (map (f :: 'a \<Rightarrow> nat) xs)"
proof -
  have "sum_list (map f xs) = sum_list (map f (take i xs @ drop i xs))" by simp
  also have "\<dots> = sum_list (map f (take i xs)) + sum_list (map f (drop i xs))"
    by (simp only: map_append sum_list_append)
  finally show ?thesis by (simp add: list_insert_def)
qed


section \<open>Properties of the dependency patcher\<close>

subsection \<open>How the strings of the patcher overlap\<close>

text \<open>The conditions hold for the strings of the source, by running through them.\<close>

lemma old_new_heads:
  "heads_agree ''collections.Callable'' ''collections.Callable'' ''collections.abc.Callable''"
  by (simp add: heads_agree_def)

lemma old_new_no_start: "no_start_in ''collections.Callable'' ''collections.abc.Callable''"
  by (simp add: no_start_in_def)

lemma old_border_free: "border_free ''collections.Callable''"
  by (simp add: border_free_def)

lemma import_abc_old:
  "no_start_in ''import collections.abc'' ''collections.Callable''"
  "\<not> sublist ''collections.Callable'' ''import collections.abc''"
  "tails_agree ''import collections.abc'' ''collections.Callable'' ''collections.abc.Callable''"
  by (simp_all add: no_start_in_def tails_agree_def sublist_Cons_right suffix_to_prefix)

lemma import_old:
  "no_start_in ''import collections'' ''collections.Callable''"
  "\<not> sublist ''collections.Callable'' ''import collections''"
  "tails_agree ''import collections'' ''collections.Callable'' ''collections.abc.Callable''"
  by (simp_all add: no_start_in_def tails_agree_def sublist_Cons_right suffix_to_prefix)

lemma import_nl_old:
  "heads_agree ''import collections\<newline>'' ''collections.Callable'' ''collections.abc.Callable''"
  "no_run_out ''import collections\<newline>'' ''collections.abc.Callable''"
  "\<not> sublist ''import collections\<newline>'' ''collections.abc.Callable''"
  by (simp_all add: heads_agree_def no_run_out_def sublist_Cons_right)

lemma import_abc_in_two_lines:
  "sublist ''import collections.abc'' ''import collections\<newline>import collections.abc\<newline>''"
  by (simp add: sublist_Cons_right)

lemma import_nl_border_free: "border_free ''import collections\<newline>''"
  by (simp add: border_free_def)

lemma abc_line_import_line:
  "heads_agree ''import collections.abc\<newline>'' ''import collections\<newline>''
     ''import collections\<newline>import collections.abc\<newline>''"
  "no_run_out ''import collections.abc\<newline>''
     ''import collections\<newline>import collections.abc\<newline>''"
  "no_start_in ''import collections.abc\<newline>'' ''import collections\<newline>''"
  "\<not> sublist ''import collections\<newline>'' ''import collections.abc\<newline>''"
  "tails_agree ''import collections.abc\<newline>'' ''import collections\<newline>''
     ''import collections\<newline>import collections.abc\<newline>''"
  by (simp_all add: heads_agree_def no_run_out_def no_start_in_def tails_agree_def
      sublist_Cons_right suffix_to_prefix)

lemma abc_line_in_two_lines:
  "occurrences ''import collections.abc\<newline>''
     ''import collections\<newline>import collections.abc\<newline>'' = 1"
  by simp

lemma abc_line_old:
  "heads_agree ''import collections.abc\<newline>'' ''collections.Callable'' ''collections.abc.Callable''"
  "no_run_out ''import collections.abc\<newline>'' ''collections.abc.Callable''"
  "no_start_in ''import collections.abc\<newline>'' ''collections.Callable''"
  "\<not> sublist ''collections.Callable'' ''import collections.abc\<newline>''"
  "tails_agree ''import collections.abc\<newline>'' ''collections.Callable'' ''collections.abc.Callable''"
  by (simp_all add: heads_agree_def no_run_out_def no_start_in_def tails_agree_def
      sublist_Cons_right suffix_to_prefix)

lemma abc_line_in_new:
  "occurrences ''import collections.abc\<newline>'' ''collections.abc.Callable'' = 0"
  by simp

lemma old_two_lines:
  "no_run_in ''collections.Callable'' ''import collections\<newline>import collections.abc\<newline>''"
  "no_start_in ''collections.Callable'' ''import collections\<newline>import collections.abc\<newline>''"
  by (simp_all add: no_run_in_def no_start_in_def)

lemma old_newline:
  "no_run_in ''collections.Callable'' ''\<newline>''"
  "no_start_in ''collections.Callable'' ''\<newline>''"
  by (simp_all add: no_run_in_def no_start_in_def)

lemma old_import_line:
  "heads_agree ''collections.Callable'' ''import collections\<newline>''
     ''import collections\<newline>import collections.abc\<newline>''"
  "no_run_out ''collections.Callable'' ''import collections\<newline>import collections.abc\<newline>''"
  "no_start_in ''collections.Callable'' ''import collections\<newline>''"
  "\<not> sublist ''import collections\<newline>'' ''collections.Callable''"
  "tails_agree ''collections.Callable'' ''import collections\<newline>''
     ''import collections\<newline>import collections.abc\<newline>''"
  by (simp_all add: heads_agree_def no_run_out_def no_start_in_def tails_agree_def
      sublist_Cons_right suffix_to_prefix)

lemma old_in_inserted:
  "occurrences ''collections.Callable'' ''import collections\<newline>import collections.abc\<newline>'' = 0"
  "occurrences ''collections.Callable'' ''import collections.abc'' = 0"
  by simp_all

subsection \<open>What the two steps of the patch keep\<close>

lemma no_old_reference: "\<not> sublist ''collections.Callable'' (replace ''collections.Callable'' ''collections.abc.Callable'' s)"
  by (rule replace_removes_old [OF _ old_new_heads old_new_no_start]) simp

lemma keeps_import_abc:
  "sublist ''import collections.abc'' s \<Longrightarrow>
     sublist ''import collections.abc'' (replace ''collections.Callable'' ''collections.abc.Callable'' s)"
  by (rule replace_keeps [OF _ _ old_border_free import_abc_old]) simp_all

lemma keeps_import:
  "sublist ''import collections'' s \<Longrightarrow>
     sublist ''import collections'' (replace ''collections.Callable'' ''collections.abc.Callable'' s)"
  by (rule replace_keeps [OF _ _ old_border_free import_old]) simp_all

lemma makes_no_import_line:
  "\<not> sublist ''import collections\<newline>'' s \<Longrightarrow>
     \<not> sublist ''import collections\<newline>'' (replace ''collections.Callable'' ''collections.abc.Callable'' s)"
  by (rule replace_makes_no [OF _ _ old_border_free import_nl_old]) simp_all

text \<open>
  The import step leaves a text that contains \<open>import collections.abc\<close>, except when
  the text has \<open>import collections\<close> but never directly before a newline: then the
  replacement of line 45 finds nothing and the text stays as it is.
\<close>

lemma add_import_has_import:
  assumes "\<not> sublist ''import collections\<newline>'' c \<longrightarrow> sublist ''import collections.abc'' c \<or> \<not> sublist ''import collections'' c"
  shows "sublist ''import collections.abc'' (add_import c)"
proof (cases "sublist ''import collections.abc'' c")
  case True
  then show ?thesis by (simp add: add_import_def str_in_def)
next
  case abc: False
  show ?thesis
  proof (cases "sublist ''import collections'' c")
    case True
    with abc assms have "sublist ''import collections\<newline>'' c" by blast
    then have "sublist ''import collections\<newline>import collections.abc\<newline>''
        (replace ''import collections\<newline>'' ''import collections\<newline>import collections.abc\<newline>'' c)"
      by (rule replace_puts_new [rotated]) simp
    with import_abc_in_two_lines
    have "sublist ''import collections.abc''
        (replace ''import collections\<newline>'' ''import collections\<newline>import collections.abc\<newline>'' c)"
      by (rule sublist_trans)
    with abc True show ?thesis by (simp add: add_import_def str_in_def)
  next
    case False
    have "''import collections.abc'' \<in> set (list_insert i ''import collections.abc'' ls)" for i ls
      by (simp add: list_insert_def)
    then show ?thesis using abc False
      by (simp add: add_import_def str_in_def Let_def in_join)
  qed
qed

text \<open>On a text that went through the patch, the import step changes nothing.\<close>

lemma add_import_patched_text: "add_import (patched_text c) = patched_text c"
proof (cases "\<not> sublist ''import collections\<newline>'' c \<and> \<not> sublist ''import collections.abc'' c
               \<and> sublist ''import collections'' c")
  case True
  then have e: "add_import c = c"
    by (simp add: add_import_def str_in_def replace_absent)
  then have p: "patched_text c = replace ''collections.Callable'' ''collections.abc.Callable'' c"
    by (simp add: patched_text_def)
  from True have "sublist ''import collections'' (patched_text c)"
    and "\<not> sublist ''import collections\<newline>'' (patched_text c)"
    unfolding p by (simp_all add: keeps_import makes_no_import_line)
  then show ?thesis
    by (simp add: add_import_def [of "patched_text c"] str_in_def replace_absent)
next
  case False
  then have "sublist ''import collections.abc'' (add_import c)"
    by (intro add_import_has_import) blast
  then have "sublist ''import collections.abc'' (patched_text c)"
    unfolding patched_text_def by (rule keeps_import_abc)
  then show ?thesis
    by (simp add: add_import_def [of "patched_text c"] str_in_def)
qed

lemma patched_text_idem: "patched_text (patched_text c) = patched_text c"
proof -
  have "patched_text (patched_text c)
          = replace ''collections.Callable'' ''collections.abc.Callable'' (patched_text c)"
    by (simp add: patched_text_def [of "patched_text c"] add_import_patched_text)
  also have "\<dots> = patched_text c"
    by (rule replace_absent) (simp_all add: patched_text_def no_old_reference)
  finally show ?thesis .
qed

lemma file_after_patch_file:
  "file_after c (patch_file c) = (if already_patched c then c else patched_text c)"
  by (simp add: file_after_def patch_file_def Let_def)

lemma add_import_keeps_references:
  "occurrences ''collections.Callable'' (add_import c) = occurrences ''collections.Callable'' c"
proof (cases "\<not> sublist ''import collections.abc'' c \<and> \<not> sublist ''import collections'' c")
  case True
  let ?ls = "str_split ''\<newline>'' c"
  have "occurrences ''collections.Callable'' (add_import c)
          = sum_list (map (occurrences ''collections.Callable'')
              (list_insert (find_insert_pos 0 ?ls) ''import collections.abc'' ?ls))"
    using True
    by (simp add: add_import_def str_in_def Let_def occurrences_join [OF _ old_newline])
  also have "\<dots> = sum_list (map (occurrences ''collections.Callable'') ?ls)"
    by (simp add: sum_list_insert old_in_inserted)
  also have "\<dots> = occurrences ''collections.Callable'' (str_join ''\<newline>'' ?ls)"
    by (simp add: occurrences_join [OF _ old_newline])
  also have "\<dots> = occurrences ''collections.Callable'' c"
    by (simp add: join_split)
  finally show ?thesis .
next
  case False
  have "occurrences ''collections.Callable''
          (replace ''import collections\<newline>'' ''import collections\<newline>import collections.abc\<newline>'' c)
        = occurrences ''collections.Callable'' c
          + occurrences ''import collections\<newline>'' c
            * occurrences ''collections.Callable''
                ''import collections\<newline>import collections.abc\<newline>''"
    by (rule occurrences_replace [OF _ _ import_nl_border_free old_import_line]) simp_all
  then have "occurrences ''collections.Callable''
          (replace ''import collections\<newline>'' ''import collections\<newline>import collections.abc\<newline>'' c)
        = occurrences ''collections.Callable'' c"
    by (simp add: old_in_inserted)
  with False show ?thesis
    by (auto simp: add_import_def str_in_def)
qed

lemmas patch_simps = patch_file_def already_patched_def str_in_def sublist_Cons_right
  patched_text_def add_import_def replace.simps str_split.simps Let_def list_insert_def
  strip_def isspace_def startswith_def file_after_def

subsection \<open>The claims about \<open>patch_file\<close>\<close>

text \<open>
  C5. A file that the test of line 35 finds patched (it contains the updated module
  name \<open>collections.abc\<close> and an import from it) is reported as patched, with success
  returned and nothing written. A second call of \<open>patch_file\<close>, on the text the file
  has after a first call on any text, returns success, writes nothing and so leaves
  that text in the file. A call writes only a text that differs from the one it read,
  and that text is the transformed one.
\<close>

theorem patch_file_idempotent:
  "(already_patched c \<longrightarrow>
      returned (patch_file c) \<and> written (patch_file c) = None
      \<and> printed (patch_file c) = [Patching, AlreadyPatched])
   \<and> (let c1 = file_after c (patch_file c)
      in returned (patch_file c1) \<and> written (patch_file c1) = None
         \<and> file_after c1 (patch_file c1) = c1)
   \<and> (\<forall>w. written (patch_file c) = Some w \<longrightarrow> w \<noteq> c \<and> w = patched_text c)"
proof -
  have 1: "already_patched c \<longrightarrow>
      returned (patch_file c) \<and> written (patch_file c) = None
      \<and> printed (patch_file c) = [Patching, AlreadyPatched]"
    by (simp add: patch_file_def)
  have 3: "\<forall>w. written (patch_file c) = Some w \<longrightarrow> w \<noteq> c \<and> w = patched_text c"
    by (auto simp: patch_file_def Let_def split: if_splits)
  have w: "written (patch_file (patched_text c)) = None"
    by (simp add: patch_file_def Let_def patched_text_idem)
  have r: "returned (patch_file x)" for x
    by (simp add: patch_file_def Let_def)
  have 2: "let c1 = file_after c (patch_file c)
      in returned (patch_file c1) \<and> written (patch_file c1) = None
         \<and> file_after c1 (patch_file c1) = c1"
  proof (cases "already_patched c")
    case True
    then show ?thesis
      by (simp add: file_after_patch_file Let_def) (simp add: patch_file_def)
  next
    case False
    then show ?thesis
      using w r [of "patched_text c"]
      by (simp add: file_after_patch_file Let_def patched_text_idem)
  qed
  from 1 2 3 show ?thesis by blast
qed

theorem patch_file_idempotent_witness:
  "written (patch_file ''from collections.abc import Callable\<newline>'') = None
   \<and> written (patch_file (file_after ''import collections\<newline>f = collections.Callable\<newline>''
                  (patch_file ''import collections\<newline>f = collections.Callable\<newline>''))) = None
   \<and> written (patch_file ''import collections\<newline>f = collections.Callable\<newline>'')
       = Some ''import collections\<newline>import collections.abc\<newline>f = collections.abc.Callable\<newline>''"
proof -
  have h: "already_patched ''from collections.abc import Callable\<newline>''"
    by (simp add: already_patched_def str_in_def sublist_Cons_right)
  have w: "written (patch_file ''import collections\<newline>f = collections.Callable\<newline>'')
       = Some ''import collections\<newline>import collections.abc\<newline>f = collections.abc.Callable\<newline>''"
    by (simp add: patch_simps)
  show ?thesis
    using patch_file_idempotent [of "''from collections.abc import Callable\<newline>''"]
      patch_file_idempotent [of "''import collections\<newline>f = collections.Callable\<newline>''"] h w
    by (simp add: Let_def)
qed

text \<open>
  C8. When the file is not found patched already, the text of the file after
  \<open>patch_file\<close> is made of the pieces that lie between the occurrences of
  \<open>collections.Callable\<close>, joined by \<open>collections.abc.Callable\<close>; there is one
  piece more than there are occurrences of \<open>collections.Callable\<close> in the text read,
  so each of them is replaced; and \<open>collections.Callable\<close> occurs nowhere in the text
  of the file afterwards.
\<close>

theorem patch_file_replaces_every_reference:
  assumes "\<not> already_patched c"
  shows "file_after c (patch_file c)
           = str_join ''collections.abc.Callable''
               (str_split ''collections.Callable'' (add_import c))
       \<and> length (str_split ''collections.Callable'' (add_import c))
           = Suc (occurrences ''collections.Callable'' c)
       \<and> \<not> str_in ''collections.Callable'' (file_after c (patch_file c))"
proof -
  have "patched_text c = str_join ''collections.abc.Callable''
                             (str_split ''collections.Callable'' (add_import c))"
    unfolding patched_text_def by (rule replace_is_join_split) simp
  moreover have "\<not> str_in ''collections.Callable'' (patched_text c)"
    by (simp add: str_in_def patched_text_def no_old_reference)
  moreover have "length (str_split ''collections.Callable'' (add_import c))
           = Suc (occurrences ''collections.Callable'' c)"
    by (simp add: length_split old_border_free add_import_keeps_references)
  ultimately show ?thesis using assms by (simp add: file_after_patch_file)
qed

theorem patch_file_replaces_every_reference_witness:
  "\<not> already_patched ''# types\<newline>f = collections.Callable\<newline>g = collections.Callable''
   \<and> file_after ''# types\<newline>f = collections.Callable\<newline>g = collections.Callable''
        (patch_file ''# types\<newline>f = collections.Callable\<newline>g = collections.Callable'')
      = ''# types\<newline>import collections.abc\<newline>f = collections.abc.Callable\<newline>g = collections.abc.Callable''
   \<and> \<not> str_in ''collections.Callable''
        (file_after ''# types\<newline>f = collections.Callable\<newline>g = collections.Callable''
           (patch_file ''# types\<newline>f = collections.Callable\<newline>g = collections.Callable''))"
proof -
  let ?c = "''# types\<newline>f = collections.Callable\<newline>g = collections.Callable''"
  have h: "\<not> already_patched ?c"
    by (simp add: already_patched_def str_in_def sublist_Cons_right)
  have v: "file_after ?c (patch_file ?c)
      = ''# types\<newline>import collections.abc\<newline>f = collections.abc.Callable\<newline>g = collections.abc.Callable''"
    by (simp add: patch_simps)
  from patch_file_replaces_every_reference [OF h]
  have n: "\<not> str_in ''collections.Callable'' (file_after ?c (patch_file ?c))"
    by blast
  from h v n show ?thesis
    by (intro conjI)
qed

text \<open>
  C9. A text that contains \<open>collections.abc\<close> and \<open>from collections.abc import\<close>
  makes \<open>patch_file\<close> print that the file is patched already, write nothing and
  return success; the file keeps its text, and with it every occurrence of
  \<open>collections.Callable\<close> that it had.
\<close>

theorem patch_file_already_patched:
  assumes "str_in ''collections.abc'' c" and "str_in ''from collections.abc import'' c"
  shows "patch_file c = \<lparr>printed = [Patching, AlreadyPatched], written = None, returned = True\<rparr>
       \<and> file_after c (patch_file c) = c
       \<and> occurrences ''collections.Callable'' (file_after c (patch_file c))
           = occurrences ''collections.Callable'' c"
  using assms by (simp add: patch_file_def already_patched_def file_after_def)

theorem patch_file_already_patched_witness:
  "patch_file ''from collections.abc import Mapping\<newline>f = collections.Callable\<newline>''
     = \<lparr>printed = [Patching, AlreadyPatched], written = None, returned = True\<rparr>
   \<and> occurrences ''collections.Callable''
        (file_after ''from collections.abc import Mapping\<newline>f = collections.Callable\<newline>''
           (patch_file ''from collections.abc import Mapping\<newline>f = collections.Callable\<newline>''))
      = 1"
proof -
  let ?c = "''from collections.abc import Mapping\<newline>f = collections.Callable\<newline>''"
  have h1: "str_in ''collections.abc'' ?c" and h2: "str_in ''from collections.abc import'' ?c"
    by (simp_all add: str_in_def sublist_Cons_right)
  have o: "occurrences ''collections.Callable'' ?c = 1"
    by simp
  from patch_file_already_patched [OF h1 h2]
  have a: "patch_file ?c = \<lparr>printed = [Patching, AlreadyPatched], written = None, returned = True\<rparr>"
    and b: "occurrences ''collections.Callable'' (file_after ?c (patch_file ?c))
              = occurrences ''collections.Callable'' ?c"
    by blast+
  from b o have "occurrences ''collections.Callable'' (file_after ?c (patch_file ?c)) = 1"
    by (rule trans)
  with a show ?thesis
    by (intro conjI)
qed

text \<open>
  C10, as stated, fails on a text that line 35 finds patched already: the text below
  does not contain \<open>import collections.abc\<close> and has one line \<open>import collections\<close>,
  and \<open>patch_file\<close> leaves it as it is, without a line \<open>import collections.abc\<close>.
\<close>

theorem import_line_guard_counterexample:
  "\<not> str_in ''import collections.abc'' ''from collections.abc import Mapping\<newline>import collections\<newline>''
   \<and> occurrences ''import collections\<newline>''
        ''from collections.abc import Mapping\<newline>import collections\<newline>'' = 1
   \<and> file_after ''from collections.abc import Mapping\<newline>import collections\<newline>''
        (patch_file ''from collections.abc import Mapping\<newline>import collections\<newline>'')
      = ''from collections.abc import Mapping\<newline>import collections\<newline>''
   \<and> occurrences ''import collections.abc\<newline>''
        (file_after ''from collections.abc import Mapping\<newline>import collections\<newline>''
          (patch_file ''from collections.abc import Mapping\<newline>import collections\<newline>'')) = 0"
  by (simp add: patch_file_def already_patched_def str_in_def sublist_Cons_right file_after_def)

text \<open>
  C10, amended. For a text that is not found patched already, that does not contain
  \<open>import collections.abc\<close> and in which \<open>import collections\<close> followed by a newline
  occurs \<open>n \<ge> 1\<close> times: the text is \<open>n + 1\<close> pieces separated by these \<open>n\<close>
  occurrences; the import step puts the same pieces together with the two lines
  \<open>import collections\<close> and \<open>import collections.abc\<close> between them, so the new line
  follows every one of the occurrences; the text of the file after \<open>patch_file\<close> is
  that again, with the reference replaced inside the pieces; and the line
  \<open>import collections.abc\<close>, which the text read does not have, occurs \<open>n\<close> times in it.
\<close>

theorem import_added_after_every_import:
  assumes "\<not> already_patched c"
      and "\<not> str_in ''import collections.abc'' c"
      and "occurrences ''import collections\<newline>'' c = n" and "1 \<le> n"
  shows "str_join ''import collections\<newline>'' (str_split ''import collections\<newline>'' c) = c
       \<and> length (str_split ''import collections\<newline>'' c) = Suc n
       \<and> add_import c = str_join ''import collections\<newline>import collections.abc\<newline>''
                           (str_split ''import collections\<newline>'' c)
       \<and> file_after c (patch_file c)
           = str_join ''import collections\<newline>import collections.abc\<newline>''
               (map (replace ''collections.Callable'' ''collections.abc.Callable'')
                    (str_split ''import collections\<newline>'' c))
       \<and> occurrences ''import collections.abc\<newline>'' c = 0
       \<and> occurrences ''import collections.abc\<newline>'' (file_after c (patch_file c)) = n"
proof -
  from assms(1) have f: "file_after c (patch_file c) = patched_text c"
    by (simp add: file_after_patch_file)
  from assms(3,4) have nl: "sublist ''import collections\<newline>'' c"
    by (simp add: sublist_iff_occurrences)
  have "sublist ''import collections'' ''import collections\<newline>''"
    by (simp add: sublist_Cons_right)
  then have imp: "sublist ''import collections'' c"
    using nl by (rule sublist_trans)
  from assms(2) imp have a: "add_import c =
      replace ''import collections\<newline>'' ''import collections\<newline>import collections.abc\<newline>'' c"
    by (simp add: add_import_def str_in_def)
  have 1: "str_join ''import collections\<newline>'' (str_split ''import collections\<newline>'' c) = c"
    by (simp add: join_split)
  have 2: "length (str_split ''import collections\<newline>'' c) = Suc n"
    using assms(3) by (simp add: length_split import_nl_border_free)
  have 3: "add_import c = str_join ''import collections\<newline>import collections.abc\<newline>''
                           (str_split ''import collections\<newline>'' c)"
    unfolding a by (rule replace_is_join_split) simp
  have 4: "file_after c (patch_file c)
           = str_join ''import collections\<newline>import collections.abc\<newline>''
               (map (replace ''collections.Callable'' ''collections.abc.Callable'')
                    (str_split ''import collections\<newline>'' c))"
    unfolding f patched_text_def 3
    by (rule replace_join [OF _ old_two_lines]) simp
  have "sublist ''import collections.abc'' ''import collections.abc\<newline>''"
    by (simp add: sublist_Cons_right)
  with assms(2) have "\<not> sublist ''import collections.abc\<newline>'' c"
    unfolding str_in_def by (blast intro: sublist_trans)
  then have 5: "occurrences ''import collections.abc\<newline>'' c = 0"
    by (simp add: sublist_iff_occurrences)
  have "occurrences ''import collections.abc\<newline>'' (add_import c)
          = occurrences ''import collections.abc\<newline>'' c
            + occurrences ''import collections\<newline>'' c
              * occurrences ''import collections.abc\<newline>''
                  ''import collections\<newline>import collections.abc\<newline>''"
    unfolding a
    by (rule occurrences_replace [OF _ _ import_nl_border_free abc_line_import_line]) simp_all
  with 5 assms(3) have b: "occurrences ''import collections.abc\<newline>'' (add_import c) = n"
    by (simp add: abc_line_in_two_lines)
  have "occurrences ''import collections.abc\<newline>'' (patched_text c)
          = occurrences ''import collections.abc\<newline>'' (add_import c)
            + occurrences ''collections.Callable'' (add_import c)
              * occurrences ''import collections.abc\<newline>'' ''collections.abc.Callable''"
    unfolding patched_text_def
    by (rule occurrences_replace [OF _ _ old_border_free abc_line_old]) simp_all
  with b have 6: "occurrences ''import collections.abc\<newline>'' (file_after c (patch_file c)) = n"
    unfolding f by (simp add: abc_line_in_new)
  from 1 2 3 4 5 6 show ?thesis
    by (intro conjI)
qed

theorem import_added_after_every_import_witness:
  "occurrences ''import collections.abc\<newline>''
     (file_after ''import collections\<newline>f = collections.Callable\<newline>import collections\<newline>''
        (patch_file ''import collections\<newline>f = collections.Callable\<newline>import collections\<newline>'')) = 2
   \<and> file_after ''import collections\<newline>f = collections.Callable\<newline>import collections\<newline>''
        (patch_file ''import collections\<newline>f = collections.Callable\<newline>import collections\<newline>'')
     = ''import collections\<newline>import collections.abc\<newline>f = collections.abc.Callable\<newline>import collections\<newline>import collections.abc\<newline>''"
proof -
  let ?c = "''import collections\<newline>f = collections.Callable\<newline>import collections\<newline>''"
  have h1: "\<not> already_patched ?c"
    by (simp add: already_patched_def str_in_def sublist_Cons_right)
  have h2: "\<not> str_in ''import collections.abc'' ?c"
    by (simp add: str_in_def sublist_Cons_right)
  have h3: "occurrences ''import collections\<newline>'' ?c = 2"
    by simp
  have h4: "(1::nat) \<le> 2"
    by simp
  have v: "str_join ''import collections\<newline>import collections.abc\<newline>''
               (map (replace ''collections.Callable'' ''collections.abc.Callable'')
                    (str_split ''import collections\<newline>'' ?c))
     = ''import collections\<newline>import collections.abc\<newline>f = collections.abc.Callable\<newline>import collections\<newline>import collections.abc\<newline>''"
    by (simp add: replace.simps str_split.simps)
  from import_added_after_every_import [OF h1 h2 h3 h4]
  have n: "occurrences ''import collections.abc\<newline>'' (file_after ?c (patch_file ?c)) = 2"
    and e: "file_after ?c (patch_file ?c)
           = str_join ''import collections\<newline>import collections.abc\<newline>''
               (map (replace ''collections.Callable'' ''collections.abc.Callable'')
                    (str_split ''import collections\<newline>'' ?c))"
    by blast+
  from e v have "file_after ?c (patch_file ?c)
     = ''import collections\<newline>import collections.abc\<newline>f = collections.abc.Callable\<newline>import collections\<newline>import collections.abc\<newline>''"
    by (rule trans)
  with n show ?thesis
    by (intro conjI)
qed

end
